theory Spec2Isabelle
  imports Main "HOL-Library.FSet" "HOL-Library.Product_Lexorder"
begin

section \<open>Data model of \<^verbatim>\<open>minesweeper.py\<close>\<close>

text \<open>
  A cell is a pair \<open>(row, col)\<close> of Python integers. A Python \<^verbatim>\<open>set\<close> of cells is
  always finite, so it is a finite set here; \<^verbatim>\<open>len\<close> is \<open>fcard\<close>.
\<close>

type_synonym cell = "int \<times> int"

text \<open>
  Python iterates a set in an order fixed by its hash table, each element once. The
  model iterates in ascending order; \<open>foldl_mark_safe\<close> and \<open>foldl_mark_mine\<close> below
  show that the loops over a set in \<^verbatim>\<open>update_knowledge_base\<close> give the same engine for
  every enumeration of the set without repetition, and the move queries pick any
  element of the enumeration.
\<close>

definition set_iter :: "cell fset \<Rightarrow> cell list" where
  "set_iter S = sorted_list_of_fset S"

subsection \<open>class Sentence\<close>

record sentence =
  cells :: "cell fset"
  count :: int

text \<open>\<^verbatim>\<open>Sentence(cells, count)\<close>: the constructor copies the cells into a fresh set.\<close>

definition Sentence :: "cell fset \<Rightarrow> int \<Rightarrow> sentence" where
  "Sentence cs n = \<lparr>cells = cs, count = n\<rparr>"

definition known_mines :: "sentence \<Rightarrow> cell fset" where
  "known_mines s = (if count s = int (fcard (cells s)) then cells s else {||})"

definition known_safes :: "sentence \<Rightarrow> cell fset" where
  "known_safes s = (if count s = 0 then cells s else {||})"

definition Sentence_mark_mine :: "sentence \<Rightarrow> cell \<Rightarrow> sentence" where
  "Sentence_mark_mine s c =
     (if c |\<in>| cells s then s\<lparr>cells := cells s |-| {|c|}, count := count s - 1\<rparr> else s)"

definition Sentence_mark_safe :: "sentence \<Rightarrow> cell \<Rightarrow> sentence" where
  "Sentence_mark_safe s c =
     (if c |\<in>| cells s then s\<lparr>cells := cells s |-| {|c|}\<rparr> else s)"

subsection \<open>class MinesweeperAI\<close>

text \<open>
  Every element of \<open>knowledge\<close> is a \<^verbatim>\<open>Sentence\<close> object that the engine created
  itself and appended once, with a cell set of its own, so no two list elements share
  state and the list of objects is a list of values.
\<close>

record ai =
  height :: int
  width :: int
  moves_made :: "cell fset"
  mines :: "cell fset"
  safes :: "cell fset"
  knowledge :: "sentence list"

definition MinesweeperAI :: "int \<Rightarrow> int \<Rightarrow> ai" where
  "MinesweeperAI h w =
     \<lparr>height = h, width = w, moves_made = {||}, mines = {||}, safes = {||}, knowledge = []\<rparr>"

definition mark_mine :: "ai \<Rightarrow> cell \<Rightarrow> ai" where
  "mark_mine a c =
     a\<lparr>mines := finsert c (mines a),
       knowledge := map (\<lambda>sentence. Sentence_mark_mine sentence c) (knowledge a)\<rparr>"

definition mark_safe :: "ai \<Rightarrow> cell \<Rightarrow> ai" where
  "mark_safe a c =
     a\<lparr>safes := finsert c (safes a),
       knowledge := map (\<lambda>sentence. Sentence_mark_safe sentence c) (knowledge a)\<rparr>"

definition find_cell_neighbors :: "ai \<Rightarrow> cell \<Rightarrow> cell list" where
  "find_cell_neighbors a cell =
     (case cell of (row, col) \<Rightarrow>
        let candidates =
              [(row - 1, col), (row + 1, col), (row, col - 1), (row, col + 1),
               (row - 1, col - 1), (row - 1, col + 1), (row + 1, col - 1), (row + 1, col + 1)]
        in filter (\<lambda>candidate. case candidate of (r, c) \<Rightarrow>
                     candidate |\<notin>| moves_made a \<and> 0 \<le> r \<and> r < height a \<and> 0 \<le> c \<and> c < width a)
             candidates)"

text \<open>
  The body of \<^verbatim>\<open>for sentence in self.knowledge\<close> in \<^verbatim>\<open>update_knowledge_base\<close>,
  at list position \<open>i\<close>: both sets are read (and copied) before any cell is marked.
\<close>

definition kb_body :: "ai \<Rightarrow> nat \<Rightarrow> bool \<Rightarrow> ai \<times> bool" where
  "kb_body a i changes =
     (let sentence = knowledge a ! i;
          safes' = known_safes sentence;
          mines' = known_mines sentence;
          a1 = (if safes' \<noteq> {||} then foldl mark_safe a (set_iter safes') else a);
          changes1 = (if safes' \<noteq> {||} then True else changes);
          a2 = (if mines' \<noteq> {||} then foldl mark_mine a1 (set_iter mines') else a1);
          changes2 = (if mines' \<noteq> {||} then True else changes1)
      in (a2, changes2))"

lemma length_foldl_mark_safe [simp]:
  "length (knowledge (foldl mark_safe a xs)) = length (knowledge a)"
  by (induction xs arbitrary: a) (simp_all add: mark_safe_def)

lemma length_foldl_mark_mine [simp]:
  "length (knowledge (foldl mark_mine a xs)) = length (knowledge a)"
  by (induction xs arbitrary: a) (simp_all add: mark_mine_def)

lemma length_kb_body [simp]:
  "length (knowledge (fst (kb_body a i changes))) = length (knowledge a)"
  by (simp add: kb_body_def Let_def)

text \<open>
  The \<^verbatim>\<open>for\<close> loop itself: the list iterator stops when its index reaches the
  current length of the list.
\<close>

function kb_for :: "nat \<Rightarrow> ai \<Rightarrow> bool \<Rightarrow> ai \<times> bool" where
  "kb_for i a changes =
     (if i < length (knowledge a)
      then kb_for (Suc i) (fst (kb_body a i changes)) (snd (kb_body a i changes))
      else (a, changes))"
  by pat_completeness auto
termination
  by (relation "measure (\<lambda>(i, a, changes). length (knowledge a) - i)")
     (auto simp: case_prod_beta)

declare kb_for.simps [simp del]

text \<open>
  The number of (sentence, cell) memberships in the knowledge base: the quantity that
  the \<^verbatim>\<open>while changes\<close> loop of \<^verbatim>\<open>update_knowledge_base\<close> consumes.
\<close>

definition memberships :: "ai \<Rightarrow> nat" where
  "memberships a = sum_list (map (\<lambda>s. fcard (cells s)) (knowledge a))"

lemma cells_Sentence_mark_safe: "cells (Sentence_mark_safe s c) = cells s |-| {|c|}"
  by (auto simp: Sentence_mark_safe_def)

lemma cells_Sentence_mark_mine: "cells (Sentence_mark_mine s c) = cells s |-| {|c|}"
  by (auto simp: Sentence_mark_mine_def)

lemma cells_foldl_mark_safe:
  "map cells (knowledge (foldl mark_safe a xs)) =
   map (\<lambda>cs. cs |-| fset_of_list xs) (map cells (knowledge a))"
proof (induction xs arbitrary: a)
  case Nil
  show ?case by simp
next
  case (Cons x xs)
  have "map cells (knowledge (mark_safe a x)) = map (\<lambda>cs. cs |-| {|x|}) (map cells (knowledge a))"
    by (simp add: mark_safe_def cells_Sentence_mark_safe)
  moreover have "\<And>cs. cs |-| {|x|} |-| fset_of_list xs = cs |-| finsert x (fset_of_list xs)"
    by auto
  ultimately show ?case using Cons.IH [of "mark_safe a x"] by simp
qed

lemma cells_foldl_mark_mine:
  "map cells (knowledge (foldl mark_mine a xs)) =
   map (\<lambda>cs. cs |-| fset_of_list xs) (map cells (knowledge a))"
proof (induction xs arbitrary: a)
  case Nil
  show ?case by simp
next
  case (Cons x xs)
  have "map cells (knowledge (mark_mine a x)) = map (\<lambda>cs. cs |-| {|x|}) (map cells (knowledge a))"
    by (simp add: mark_mine_def cells_Sentence_mark_mine)
  moreover have "\<And>cs. cs |-| {|x|} |-| fset_of_list xs = cs |-| finsert x (fset_of_list xs)"
    by auto
  ultimately show ?case using Cons.IH [of "mark_mine a x"] by simp
qed

lemma fset_of_list_set_iter [simp]: "fset_of_list (set_iter S) = S"
  by (simp add: set_iter_def)

lemma cells_kb_body:
  "map cells (knowledge (fst (kb_body a i changes))) =
   map (\<lambda>cs. cs |-| (known_safes (knowledge a ! i) |\<union>| known_mines (knowledge a ! i)))
     (map cells (knowledge a))"
proof -
  have "\<And>(A :: cell fset) B css.
          map (\<lambda>cs. cs |-| B) (map (\<lambda>cs. cs |-| A) css) = map (\<lambda>cs. cs |-| (A |\<union>| B)) css"
  proof -
    fix A B :: "cell fset" and css
    have "\<And>cs. cs |-| A |-| B = cs |-| (A |\<union>| B)" by auto
    then show "map (\<lambda>cs. cs |-| B) (map (\<lambda>cs. cs |-| A) css) = map (\<lambda>cs. cs |-| (A |\<union>| B)) css"
      by simp
  qed
  then show ?thesis
    by (simp add: kb_body_def Let_def cells_foldl_mark_safe cells_foldl_mark_mine
             del: map_map)
qed

lemma snd_kb_body:
  "snd (kb_body a i changes) \<longleftrightarrow>
   changes \<or> known_safes (knowledge a ! i) |\<union>| known_mines (knowledge a ! i) \<noteq> {||}"
  by (auto simp: kb_body_def Let_def)

lemma memberships_cells:
  "memberships a = sum_list (map fcard (map cells (knowledge a)))"
  by (simp add: memberships_def comp_def)

lemma sum_list_fcard_minus_le:
  "sum_list (map fcard (map (\<lambda>cs. cs |-| R) css)) \<le> sum_list (map fcard css)"
proof (induction css)
  case Nil
  show ?case by simp
next
  case (Cons cs css)
  have "fcard (cs |-| R) \<le> fcard cs" by (rule fcard_mono) auto
  with Cons.IH show ?case by simp
qed

lemma sum_list_fcard_minus_less:
  assumes "i < length css" and "R \<noteq> {||}" and "R |\<subseteq>| css ! i"
  shows "sum_list (map fcard (map (\<lambda>cs. cs |-| R) css)) < sum_list (map fcard css)"
  using assms
proof (induction css arbitrary: i)
  case Nil
  then show ?case by simp
next
  case (Cons cs css)
  show ?case
  proof (cases i)
    case 0
    with Cons.prems have "R \<noteq> {||}" and "R |\<subseteq>| cs" by simp_all
    then have "cs |-| R |\<subset>| cs" by auto
    then have "fcard (cs |-| R) < fcard cs" by (rule pfsubset_fcard_mono)
    with sum_list_fcard_minus_le [of R css] show ?thesis by simp
  next
    case (Suc j)
    with Cons.prems have "j < length css" and "R |\<subseteq>| css ! j" by simp_all
    with Cons.IH [of j] Cons.prems(2)
    have "sum_list (map fcard (map (\<lambda>cs. cs |-| R) css)) < sum_list (map fcard css)" by simp
    moreover have "fcard (cs |-| R) \<le> fcard cs" by (rule fcard_mono) auto
    ultimately show ?thesis by simp
  qed
qed

lemma known_subset_cells:
  "known_safes s |\<union>| known_mines s |\<subseteq>| cells s"
  by (auto simp: known_safes_def known_mines_def)

lemma memberships_kb_body_le:
  "memberships (fst (kb_body a i changes)) \<le> memberships a"
  unfolding memberships_cells cells_kb_body by (rule sum_list_fcard_minus_le)

lemma memberships_kb_body_less:
  assumes "i < length (knowledge a)" and "snd (kb_body a i changes)" and "\<not> changes"
  shows "memberships (fst (kb_body a i changes)) < memberships a"
proof -
  let ?R = "known_safes (knowledge a ! i) |\<union>| known_mines (knowledge a ! i)"
  from assms(2,3) have "?R \<noteq> {||}" by (simp add: snd_kb_body)
  moreover from assms(1) have "?R |\<subseteq>| map cells (knowledge a) ! i"
    by (simp only: nth_map known_subset_cells)
  moreover from assms(1) have "i < length (map cells (knowledge a))" by simp
  ultimately show ?thesis
    unfolding memberships_cells cells_kb_body by (rule sum_list_fcard_minus_less [rotated 1])
qed

lemma memberships_kb_for:
  "memberships (fst (kb_for i a changes)) \<le> memberships a \<and>
   (snd (kb_for i a changes) \<and> \<not> changes \<longrightarrow> memberships (fst (kb_for i a changes)) < memberships a)"
proof (induction i a changes rule: kb_for.induct)
  case (1 i a changes)
  show ?case
  proof (cases "i < length (knowledge a)")
    case False
    then show ?thesis by (simp add: kb_for.simps [of i a changes])
  next
    case True
    let ?a = "fst (kb_body a i changes)" and ?c = "snd (kb_body a i changes)"
    have eq: "kb_for i a changes = kb_for (Suc i) ?a ?c"
      using True by (simp add: kb_for.simps [of i a changes])
    note IH = "1.IH" [OF True]
    have le: "memberships ?a \<le> memberships a" by (rule memberships_kb_body_le)
    show ?thesis
    proof (cases "?c \<and> \<not> changes")
      case True
      with \<open>i < length (knowledge a)\<close> have "memberships ?a < memberships a"
        using memberships_kb_body_less [of i a changes] by blast
      with IH show ?thesis unfolding eq by linarith
    next
      case False
      with IH le show ?thesis unfolding eq by (auto simp: snd_kb_body)
    qed
  qed
qed

text \<open>
  One round of \<^verbatim>\<open>while changes\<close>: \<^verbatim>\<open>changes = False\<close>, then the \<^verbatim>\<open>for\<close> loop from
  the start of the list.
\<close>

definition kb_pass :: "ai \<Rightarrow> ai \<times> bool" where
  "kb_pass a = kb_for 0 a False"

lemma kb_for_changed_less:
  assumes "kb_pass a = (a', True)"
  shows "memberships a' < memberships a"
  using memberships_kb_for [of 0 a False] assms by (simp add: kb_pass_def)

text \<open>\<^verbatim>\<open>while changes\<close>: a round, and again while the round reports a change.\<close>

function update_loop :: "ai \<Rightarrow> ai" where
  "update_loop a =
     (case kb_pass a of (a', changes) \<Rightarrow> if changes then update_loop a' else a')"
  by pat_completeness auto
termination
  by (relation "measure memberships") (simp_all add: kb_for_changed_less [OF sym])

declare update_loop.simps [simp del]

definition update_knowledge_base :: "ai \<Rightarrow> ai" where
  "update_knowledge_base a =
     (let a' = update_loop a
      in a'\<lparr>knowledge := filter (\<lambda>s. cells s \<noteq> {||}) (knowledge a')\<rparr>)"

text \<open>
  \<^verbatim>\<open>infer_new_sentences\<close>: the inner loop over \<open>s2\<close> for a fixed \<open>s1\<close>, and the outer
  loop over \<open>s1\<close>. \<open>kn\<close> is \<^verbatim>\<open>self.knowledge\<close>, which the loops only read. \<^verbatim>\<open>!=\<close> and
  \<^verbatim>\<open>not in\<close> go through \<^verbatim>\<open>Sentence.__eq__\<close>, equality of cells and of count, which is
  equality of records.
\<close>

fun infer_inner :: "sentence list \<Rightarrow> sentence \<Rightarrow> sentence list \<Rightarrow> sentence list \<Rightarrow> sentence list" where
  "infer_inner kn s1 [] inferred = inferred"
| "infer_inner kn s1 (s2 # rest) inferred =
     (if s1 \<noteq> s2 \<and> cells s1 |\<subseteq>| cells s2 then
        let new_cells = cells s2 |-| cells s1;
            new_count = count s2 - count s1;
            new_sentence = Sentence new_cells new_count
        in if new_sentence \<notin> set kn \<and> new_sentence \<notin> set inferred
           then infer_inner kn s1 rest (inferred @ [new_sentence])
           else infer_inner kn s1 rest inferred
      else infer_inner kn s1 rest inferred)"

fun infer_outer :: "sentence list \<Rightarrow> sentence list \<Rightarrow> sentence list \<Rightarrow> sentence list" where
  "infer_outer kn [] inferred = inferred"
| "infer_outer kn (s1 # rest) inferred = infer_outer kn rest (infer_inner kn s1 kn inferred)"

definition infer_new_sentences :: "ai \<Rightarrow> ai" where
  "infer_new_sentences a =
     (let inferred = infer_outer (knowledge a) (knowledge a) []
      in a\<lparr>knowledge := knowledge a @ inferred\<rparr>)"

definition add_knowledge :: "ai \<Rightarrow> cell \<Rightarrow> int \<Rightarrow> ai" where
  "add_knowledge a cell n =
     (let a1 = a\<lparr>moves_made := finsert cell (moves_made a)\<rparr>;
          a2 = mark_safe a1 cell;
          neighbors = find_cell_neighbors a2 cell;
          new_sentence = Sentence (fset_of_list neighbors) n;
          a3 = a2\<lparr>knowledge := knowledge a2 @ [new_sentence]\<rparr>;
          a4 = update_knowledge_base a3
      in infer_new_sentences a4)"

text \<open>A sequence of \<^verbatim>\<open>add_knowledge\<close> calls, one per observation \<open>(cell, count)\<close>.\<close>

definition observe_all :: "ai \<Rightarrow> (cell \<times> int) list \<Rightarrow> ai" where
  "observe_all a obs = foldl (\<lambda>a' (cell, n). add_knowledge a' cell n) a obs"

subsection \<open>The move queries of the engine\<close>

datatype error = IndexError

text \<open>
  \<^verbatim>\<open>random.choice(seq)\<close> returns \<^verbatim>\<open>seq[i]\<close> for an index \<open>i\<close> below \<^verbatim>\<open>len(seq)\<close> drawn
  from the generator, and raises \<^verbatim>\<open>IndexError\<close> on an empty sequence. The draw is the
  parameter \<open>r\<close>, reduced below the length.
\<close>

definition random_choice :: "nat \<Rightarrow> 'a list \<Rightarrow> error + 'a" where
  "random_choice r seq = (if seq = [] then Inl IndexError else Inr (seq ! (r mod length seq)))"

text \<open>
  The queries return their result together with the engine after the call, so that
  what they do to the engine is part of the model.
\<close>

definition make_safe_move :: "nat \<Rightarrow> ai \<Rightarrow> error + (cell option \<times> ai)" where
  "make_safe_move r a =
     (let possible_moves = [c. c \<leftarrow> set_iter (safes a), c |\<notin>| moves_made a]
      in if possible_moves \<noteq> []
         then (case random_choice r possible_moves of
                 Inl e \<Rightarrow> Inl e
               | Inr c \<Rightarrow> Inr (Some c, a))
         else Inr (None, a))"

definition make_random_move :: "nat \<Rightarrow> ai \<Rightarrow> error + (cell option \<times> ai)" where
  "make_random_move r a =
     (let possible_moves =
            [(row, col). row \<leftarrow> [0 .. height a - 1], col \<leftarrow> [0 .. width a - 1],
                         (row, col) |\<notin>| moves_made a \<and> (row, col) |\<notin>| mines a]
      in if possible_moves = [] then Inr (None, a)
         else (case random_choice r possible_moves of
                 Inl e \<Rightarrow> Inl e
               | Inr c \<Rightarrow> Inr (Some c, a)))"

subsection \<open>class Minesweeper: the count that the board reports\<close>

text \<open>
  \<^verbatim>\<open>Minesweeper.nearby_mines(cell)\<close> for a board of height \<open>h\<close> and width \<open>w\<close>. The
  constructor keeps \<^verbatim>\<open>board[i][j]\<close> true exactly for the cells of \<^verbatim>\<open>self.mines\<close>, so the
  board is given by that set.
\<close>

definition nearby_mines :: "int \<Rightarrow> int \<Rightarrow> cell fset \<Rightarrow> cell \<Rightarrow> int" where
  "nearby_mines h w board cell =
     int (length [(i, j). i \<leftarrow> [fst cell - 1 .. fst cell + 1], j \<leftarrow> [snd cell - 1 .. snd cell + 1],
                          (i, j) \<noteq> cell \<and> (0 \<le> i \<and> i < h \<and> 0 \<le> j \<and> j < w) \<and> (i, j) |\<in>| board])"

section \<open>Sentences\<close>

text \<open>
  C2. \<^verbatim>\<open>known_mines()\<close> is the whole cell set when count equals the number of cells and
  the empty set otherwise; \<^verbatim>\<open>known_safes()\<close> is the whole cell set when count is 0 and
  the empty set otherwise. For three different cells \<open>A\<close>, \<open>B\<close>, \<open>C\<close>: with count 3,
  \<^verbatim>\<open>known_mines()\<close> is \<open>{A, B, C}\<close> and \<^verbatim>\<open>known_safes()\<close> is empty; with count 0,
  \<^verbatim>\<open>known_safes()\<close> is \<open>{A, B, C}\<close>.
\<close>

theorem known_mines_known_safes:
  "(count s = int (fcard (cells s)) \<longrightarrow> known_mines s = cells s) \<and>
   (count s \<noteq> int (fcard (cells s)) \<longrightarrow> known_mines s = {||}) \<and>
   (count s = 0 \<longrightarrow> known_safes s = cells s) \<and>
   (count s \<noteq> 0 \<longrightarrow> known_safes s = {||}) \<and>
   (distinct [A, B, C] \<longrightarrow>
      known_mines (Sentence {|A, B, C|} 3) = {|A, B, C|} \<and>
      known_safes (Sentence {|A, B, C|} 3) = {||} \<and>
      known_safes (Sentence {|A, B, C|} 0) = {|A, B, C|})"
  by (simp add: known_mines_def known_safes_def Sentence_def fcard_finsert_if)

theorem known_mines_known_safes_witness:
  "count (Sentence {|(0, 0), (0, 1)|} 2) = int (fcard (cells (Sentence {|(0, 0), (0, 1)|} 2))) \<and>
   known_mines (Sentence {|(0, 0), (0, 1)|} 2) = {|(0, 0), (0, 1)|} \<and>
   count (Sentence {|(0, 0), (0, 1)|} 2) \<noteq> 0 \<and>
   known_safes (Sentence {|(0, 0), (0, 1)|} 2) = {||} \<and>
   count (Sentence {|(0, 0), (0, 1)|} 0) \<noteq> int (fcard (cells (Sentence {|(0, 0), (0, 1)|} 0))) \<and>
   known_mines (Sentence {|(0, 0), (0, 1)|} 0) = {||} \<and>
   count (Sentence {|(0, 0), (0, 1)|} 0) = 0 \<and>
   known_safes (Sentence {|(0, 0), (0, 1)|} 0) = {|(0, 0), (0, 1)|} \<and>
   distinct [(0, 0), (0, 1), (1, 1) :: cell] \<and>
   known_mines (Sentence {|(0, 0), (0, 1), (1, 1)|} 3) = {|(0, 0), (0, 1), (1, 1)|} \<and>
   known_safes (Sentence {|(0, 0), (0, 1), (1, 1)|} 3) = {||} \<and>
   known_safes (Sentence {|(0, 0), (0, 1), (1, 1)|} 0) = {|(0, 0), (0, 1), (1, 1)|}"
  using known_mines_known_safes [of "Sentence {|(0, 0), (0, 1)|} 2" "(0, 0)" "(0, 1)" "(1, 1)"]
        known_mines_known_safes [of "Sentence {|(0, 0), (0, 1)|} 0" "(0, 0)" "(0, 1)" "(1, 1)"]
  by (simp add: Sentence_def fcard_finsert_if)

text \<open>
  C4. \<^verbatim>\<open>Sentence.mark_mine(cell)\<close>: a cell of the sentence is removed from the cell set
  and count goes down by exactly 1; for any other cell the sentence is unchanged. On
  \<open>{A, B}\<close> with count 1 and \<open>A\<close>, \<open>B\<close> different, marking \<open>A\<close> leaves cells \<open>{B}\<close> and
  count 0, and then \<^verbatim>\<open>known_safes()\<close> is \<open>{B}\<close>.
\<close>

theorem Sentence_mark_mine_spec:
  "(c |\<in>| cells s \<longrightarrow>
      cells (Sentence_mark_mine s c) = cells s |-| {|c|} \<and>
      count (Sentence_mark_mine s c) = count s - 1) \<and>
   (c |\<notin>| cells s \<longrightarrow> Sentence_mark_mine s c = s) \<and>
   (A \<noteq> B \<longrightarrow>
      Sentence_mark_mine (Sentence {|A, B|} 1) A = Sentence {|B|} 0 \<and>
      known_safes (Sentence_mark_mine (Sentence {|A, B|} 1) A) = {|B|})"
  by (auto simp: Sentence_mark_mine_def Sentence_def known_safes_def)

theorem Sentence_mark_mine_spec_witness:
  "(0, 0) |\<in>| cells (Sentence {|(0, 0), (0, 1)|} 1) \<and>
   cells (Sentence_mark_mine (Sentence {|(0, 0), (0, 1)|} 1) (0, 0)) = {|(0, 1)|} \<and>
   count (Sentence_mark_mine (Sentence {|(0, 0), (0, 1)|} 1) (0, 0)) = 0 \<and>
   (5, 5) |\<notin>| cells (Sentence {|(0, 0), (0, 1)|} 1) \<and>
   Sentence_mark_mine (Sentence {|(0, 0), (0, 1)|} 1) (5, 5) = Sentence {|(0, 0), (0, 1)|} 1 \<and>
   (0, 0) \<noteq> ((0, 1) :: cell) \<and>
   Sentence_mark_mine (Sentence {|(0, 0), (0, 1)|} 1) (0, 0) = Sentence {|(0, 1)|} 0 \<and>
   known_safes (Sentence_mark_mine (Sentence {|(0, 0), (0, 1)|} 1) (0, 0)) = {|(0, 1)|}"
  using Sentence_mark_mine_spec [of "(0, 0)" "Sentence {|(0, 0), (0, 1)|} 1" "(0, 0)" "(0, 1)"]
        Sentence_mark_mine_spec [of "(5, 5)" "Sentence {|(0, 0), (0, 1)|} 1" "(0, 0)" "(0, 1)"]
  by (simp add: Sentence_def)

text \<open>
  C5. \<^verbatim>\<open>Sentence.mark_safe(cell)\<close>: a cell of the sentence is removed from the cell set
  and count stays; for any other cell the sentence is unchanged. On \<open>{A, B}\<close> with
  count 1 and \<open>A\<close>, \<open>B\<close> different, marking \<open>A\<close> leaves cells \<open>{B}\<close> and count 1, and
  then \<^verbatim>\<open>known_mines()\<close> is \<open>{B}\<close>.
\<close>

theorem Sentence_mark_safe_spec:
  "(c |\<in>| cells s \<longrightarrow>
      cells (Sentence_mark_safe s c) = cells s |-| {|c|} \<and>
      count (Sentence_mark_safe s c) = count s) \<and>
   (c |\<notin>| cells s \<longrightarrow> Sentence_mark_safe s c = s) \<and>
   (A \<noteq> B \<longrightarrow>
      Sentence_mark_safe (Sentence {|A, B|} 1) A = Sentence {|B|} 1 \<and>
      known_mines (Sentence_mark_safe (Sentence {|A, B|} 1) A) = {|B|})"
  by (auto simp: Sentence_mark_safe_def Sentence_def known_mines_def fcard_finsert_if)

theorem Sentence_mark_safe_spec_witness:
  "(0, 0) |\<in>| cells (Sentence {|(0, 0), (0, 1)|} 1) \<and>
   cells (Sentence_mark_safe (Sentence {|(0, 0), (0, 1)|} 1) (0, 0)) = {|(0, 1)|} \<and>
   count (Sentence_mark_safe (Sentence {|(0, 0), (0, 1)|} 1) (0, 0)) = 1 \<and>
   (5, 5) |\<notin>| cells (Sentence {|(0, 0), (0, 1)|} 1) \<and>
   Sentence_mark_safe (Sentence {|(0, 0), (0, 1)|} 1) (5, 5) = Sentence {|(0, 0), (0, 1)|} 1 \<and>
   (0, 0) \<noteq> ((0, 1) :: cell) \<and>
   Sentence_mark_safe (Sentence {|(0, 0), (0, 1)|} 1) (0, 0) = Sentence {|(0, 1)|} 1 \<and>
   known_mines (Sentence_mark_safe (Sentence {|(0, 0), (0, 1)|} 1) (0, 0)) = {|(0, 1)|}"
  using Sentence_mark_safe_spec [of "(0, 0)" "Sentence {|(0, 0), (0, 1)|} 1" "(0, 0)" "(0, 1)"]
        Sentence_mark_safe_spec [of "(5, 5)" "Sentence {|(0, 0), (0, 1)|} 1" "(0, 0)" "(0, 1)"]
  by (simp add: Sentence_def)

section \<open>The engine\<close>

text \<open>
  C6. Calling the engine's \<^verbatim>\<open>mark_mine(cell)\<close> twice in a row leaves the same engine
  as calling it once: the same \<open>mines\<close>, and the same cells and count in every sentence
  of \<open>knowledge\<close> (and the same other fields).
\<close>

theorem mark_mine_idempotent:
  "mark_mine (mark_mine a c) c = mark_mine a c"
  by (simp add: mark_mine_def Sentence_mark_mine_def)

text \<open>
  C7. On a 3 by 3 board whose only mine is at \<open>(0, 0)\<close>, the board reports count 1 for
  \<open>(1, 1)\<close>, and after \<^verbatim>\<open>add_knowledge((1, 1), 1)\<close> on a fresh engine the cell \<open>(0, 0)\<close>
  is neither in \<open>safes\<close> nor in \<open>mines\<close>.
\<close>

theorem single_observation_undetermined:
  "nearby_mines 3 3 {|(0, 0)|} (1, 1) = 1 \<and>
   (0, 0) |\<notin>| safes (add_knowledge (MinesweeperAI 3 3) (1, 1) 1) \<and>
   (0, 0) |\<notin>| mines (add_knowledge (MinesweeperAI 3 3) (1, 1) 1)"
  by code_simp

lemma kb_body_removes:
  assumes "i < length (knowledge a)"
  shows "cells (knowledge (fst (kb_body a i changes)) ! i) |\<inter>|
           (known_safes (knowledge a ! i) |\<union>| known_mines (knowledge a ! i)) = {||}"
proof -
  let ?R = "known_safes (knowledge a ! i) |\<union>| known_mines (knowledge a ! i)"
  from assms have "cells (knowledge (fst (kb_body a i changes)) ! i) =
                   map cells (knowledge (fst (kb_body a i changes))) ! i" by simp
  also have "\<dots> = map (\<lambda>cs. cs |-| ?R) (map cells (knowledge a)) ! i"
    by (simp only: cells_kb_body)
  also from assms have "\<dots> = cells (knowledge a ! i) |-| ?R" by simp
  finally show ?thesis by auto
qed

lemma update_loop_unfold:
  "update_loop a =
     (if snd (kb_pass a) then update_loop (fst (kb_pass a)) else fst (kb_pass a))"
  by (subst update_loop.simps) (simp add: case_prod_beta)

lemma update_loop_rounds:
  "\<exists>n\<le>memberships a.
      (\<forall>k<n. snd (kb_pass (((\<lambda>a'. fst (kb_pass a')) ^^ k) a))) \<and>
      \<not> snd (kb_pass (((\<lambda>a'. fst (kb_pass a')) ^^ n) a)) \<and>
      update_loop a = fst (kb_pass (((\<lambda>a'. fst (kb_pass a')) ^^ n) a))"
proof (induction a rule: update_loop.induct)
  case (1 a)
  let ?step = "\<lambda>a'. fst (kb_pass a')"
  show ?case
  proof (cases "snd (kb_pass a)")
    case False
    then have "update_loop a = fst (kb_pass a)"
      by (simp add: update_loop_unfold [of a])
    with False have "0 \<le> memberships a \<and>
      (\<forall>k<0. snd (kb_pass ((?step ^^ k) a))) \<and>
      \<not> snd (kb_pass ((?step ^^ 0) a)) \<and>
      update_loop a = fst (kb_pass ((?step ^^ 0) a))" by simp
    then show ?thesis by (rule exI [of _ 0])
  next
    case True
    then have pass: "kb_pass a = (?step a, True)" by (simp add: prod_eq_iff)
    from True have loop: "update_loop a = update_loop (?step a)"
      by (simp add: update_loop_unfold [of a])
    from pass have less: "memberships (?step a) < memberships a" by (rule kb_for_changed_less)
    from "1.IH" [OF pass [symmetric]] obtain n where
      n: "n \<le> memberships (?step a)"
         "\<forall>k<n. snd (kb_pass ((?step ^^ k) (?step a)))"
         "\<not> snd (kb_pass ((?step ^^ n) (?step a)))"
         "update_loop (?step a) = fst (kb_pass ((?step ^^ n) (?step a)))" by auto
    have shift: "\<And>k. (?step ^^ k) (?step a) = (?step ^^ Suc k) a"
      by (simp only: funpow_Suc_right o_apply)
    have "\<forall>k<Suc n. snd (kb_pass ((?step ^^ k) a))"
    proof (intro allI impI)
      fix k assume "k < Suc n"
      show "snd (kb_pass ((?step ^^ k) a))"
      proof (cases k)
        case 0
        with True show ?thesis by simp
      next
        case (Suc j)
        with \<open>k < Suc n\<close> n(2) have "snd (kb_pass ((?step ^^ j) (?step a)))" by simp
        then show ?thesis unfolding shift Suc .
      qed
    qed
    moreover from n(3) have "\<not> snd (kb_pass ((?step ^^ Suc n) a))" unfolding shift .
    moreover from n(4) loop have "update_loop a = fst (kb_pass ((?step ^^ Suc n) a))"
      unfolding shift by simp
    moreover from n(1) less have "Suc n \<le> memberships a" by simp
    ultimately show ?thesis by blast
  qed
qed

text \<open>
  C10. The \<^verbatim>\<open>while changes\<close> loop of \<^verbatim>\<open>update_knowledge_base\<close> terminates from every
  engine state. A round that reports a change leaves strictly fewer (sentence, cell)
  memberships; the loop body at a sentence leaves in that sentence none of the cells
  that its \<^verbatim>\<open>known_safes\<close> and \<^verbatim>\<open>known_mines\<close> returned; and so the loop ends after at
  most \<open>memberships a\<close> rounds that report a change, with the first round that reports
  none.
\<close>

theorem update_knowledge_base_terminates:
  "(\<forall>a'. kb_pass a = (a', True) \<longrightarrow> memberships a' < memberships a) \<and>
   (\<forall>i changes. i < length (knowledge a) \<longrightarrow>
      cells (knowledge (fst (kb_body a i changes)) ! i) |\<inter>|
        (known_safes (knowledge a ! i) |\<union>| known_mines (knowledge a ! i)) = {||}) \<and>
   (\<exists>n\<le>memberships a.
      (\<forall>k<n. snd (kb_pass (((\<lambda>a'. fst (kb_pass a')) ^^ k) a))) \<and>
      \<not> snd (kb_pass (((\<lambda>a'. fst (kb_pass a')) ^^ n) a)) \<and>
      update_loop a = fst (kb_pass (((\<lambda>a'. fst (kb_pass a')) ^^ n) a)))"
  using kb_for_changed_less [of a] kb_body_removes [of _ a] update_loop_rounds [of a]
  by blast

theorem update_knowledge_base_terminates_witness:
  "kb_pass (MinesweeperAI 2 2\<lparr>knowledge := [Sentence {|(0, 0)|} 0]\<rparr>) =
     (MinesweeperAI 2 2\<lparr>safes := {|(0, 0)|}, knowledge := [Sentence {||} 0]\<rparr>, True) \<and>
   memberships (MinesweeperAI 2 2\<lparr>safes := {|(0, 0)|}, knowledge := [Sentence {||} 0]\<rparr>)
     < memberships (MinesweeperAI 2 2\<lparr>knowledge := [Sentence {|(0, 0)|} 0]\<rparr>) \<and>
   0 < length (knowledge (MinesweeperAI 2 2\<lparr>knowledge := [Sentence {|(0, 0)|} 0]\<rparr>)) \<and>
   cells (knowledge (fst (kb_body (MinesweeperAI 2 2\<lparr>knowledge := [Sentence {|(0, 0)|} 0]\<rparr>)
                            0 False)) ! 0) |\<inter>|
     (known_safes (knowledge (MinesweeperAI 2 2\<lparr>knowledge := [Sentence {|(0, 0)|} 0]\<rparr>) ! 0) |\<union>|
      known_mines (knowledge (MinesweeperAI 2 2\<lparr>knowledge := [Sentence {|(0, 0)|} 0]\<rparr>) ! 0))
     = {||}"
proof -
  let ?a = "MinesweeperAI 2 2\<lparr>knowledge := [Sentence {|(0, 0)|} 0]\<rparr>"
  have h1: "kb_pass ?a =
     (MinesweeperAI 2 2\<lparr>safes := {|(0, 0)|}, knowledge := [Sentence {||} 0]\<rparr>, True)"
    by code_simp
  have h2: "0 < length (knowledge ?a)" by simp
  from update_knowledge_base_terminates [of ?a] h1 h2 show ?thesis by blast
qed

lemma infer_inner_prefix:
  "\<exists>new. infer_inner kn s1 xs inferred = inferred @ new"
proof (induction xs arbitrary: inferred)
  case Nil
  show ?case by simp
next
  case (Cons s2 xs)
  show ?case
    using Cons.IH [of inferred]
          Cons.IH [of "inferred @ [Sentence (cells s2 |-| cells s1) (count s2 - count s1)]"]
    by (auto simp: Let_def)
qed

lemma infer_inner_complete:
  assumes "s2 \<in> set xs" and "s1 \<noteq> s2" and "cells s1 |\<subseteq>| cells s2"
  shows "Sentence (cells s2 |-| cells s1) (count s2 - count s1)
           \<in> set kn \<union> set (infer_inner kn s1 xs inferred)"
  using assms(1)
proof (induction xs arbitrary: inferred)
  case Nil
  then show ?case by simp
next
  case (Cons x xs)
  let ?new = "Sentence (cells s2 |-| cells s1) (count s2 - count s1)"
  show ?case
  proof (cases "x = s2")
    case True
    have mono: "\<And>inf'. set inf' \<subseteq> set (infer_inner kn s1 xs inf')"
      using infer_inner_prefix [of kn s1 xs] by (metis set_append Un_upper1)
    show ?thesis
    proof (cases "?new \<notin> set kn \<and> ?new \<notin> set inferred")
      case True
      with \<open>x = s2\<close> assms(2,3) have "infer_inner kn s1 (x # xs) inferred =
         infer_inner kn s1 xs (inferred @ [?new])" by (simp add: Let_def)
      with mono [of "inferred @ [?new]"] show ?thesis by auto
    next
      case False
      with \<open>x = s2\<close> assms(2,3) have "infer_inner kn s1 (x # xs) inferred =
         infer_inner kn s1 xs inferred" by (auto simp: Let_def)
      with mono [of inferred] False show ?thesis by auto
    qed
  next
    case False
    with Cons.prems have "s2 \<in> set xs" by simp
    from Cons.IH [OF this] show ?thesis by (simp add: Let_def)
  qed
qed

lemma infer_outer_prefix:
  "\<exists>new. infer_outer kn ys inferred = inferred @ new"
proof (induction ys arbitrary: inferred)
  case Nil
  show ?case by simp
next
  case (Cons s1 ys)
  from infer_inner_prefix [of kn s1 kn inferred] obtain new1
    where "infer_inner kn s1 kn inferred = inferred @ new1" by blast
  with Cons.IH [of "inferred @ new1"] show ?case by auto
qed

lemma infer_outer_complete:
  assumes "s1 \<in> set ys" and "s2 \<in> set kn" and "s1 \<noteq> s2" and "cells s1 |\<subseteq>| cells s2"
  shows "Sentence (cells s2 |-| cells s1) (count s2 - count s1)
           \<in> set kn \<union> set (infer_outer kn ys inferred)"
  using assms(1)
proof (induction ys arbitrary: inferred)
  case Nil
  then show ?case by simp
next
  case (Cons y ys)
  show ?case
  proof (cases "y = s1")
    case True
    have "set (infer_inner kn s1 kn inferred) \<subseteq> set (infer_outer kn ys (infer_inner kn s1 kn inferred))"
      using infer_outer_prefix [of kn ys "infer_inner kn s1 kn inferred"]
      by (metis set_append Un_upper1)
    with infer_inner_complete [OF assms(2,3,4), of kn inferred] True show ?thesis by auto
  next
    case False
    with Cons.prems have "s1 \<in> set ys" by simp
    from Cons.IH [OF this] show ?thesis by simp
  qed
qed

text \<open>What is staged is new, staged once, and built from a pair of the knowledge list.\<close>

definition staged_ok :: "sentence list \<Rightarrow> sentence list \<Rightarrow> bool" where
  "staged_ok kn inferred \<longleftrightarrow>
     distinct inferred \<and> set inferred \<inter> set kn = {} \<and>
     (\<forall>s \<in> set inferred. \<exists>s1 \<in> set kn. \<exists>s2 \<in> set kn.
        s1 \<noteq> s2 \<and> cells s1 |\<subseteq>| cells s2 \<and>
        s = Sentence (cells s2 |-| cells s1) (count s2 - count s1))"

lemma infer_inner_staged_ok:
  assumes "staged_ok kn inferred" and "s1 \<in> set kn" and "set xs \<subseteq> set kn"
  shows "staged_ok kn (infer_inner kn s1 xs inferred)"
  using assms(1,3)
proof (induction xs arbitrary: inferred)
  case Nil
  then show ?case by simp
next
  case (Cons s2 xs)
  let ?new = "Sentence (cells s2 |-| cells s1) (count s2 - count s1)"
  from Cons.prems have s2: "s2 \<in> set kn" and xs: "set xs \<subseteq> set kn" by simp_all
  show ?case
  proof (cases "s1 \<noteq> s2 \<and> cells s1 |\<subseteq>| cells s2 \<and> ?new \<notin> set kn \<and> ?new \<notin> set inferred")
    case True
    with Cons.prems(1) assms(2) s2 have "staged_ok kn (inferred @ [?new])"
      unfolding staged_ok_def by auto
    from Cons.IH [OF this xs] True show ?thesis by (simp add: Let_def)
  next
    case False
    with Cons.IH [OF Cons.prems(1) xs] show ?thesis by (auto simp: Let_def)
  qed
qed

lemma infer_outer_staged_ok:
  assumes "staged_ok kn inferred" and "set ys \<subseteq> set kn"
  shows "staged_ok kn (infer_outer kn ys inferred)"
  using assms
proof (induction ys arbitrary: inferred)
  case Nil
  then show ?case by simp
next
  case (Cons s1 ys)
  from Cons.prems have "s1 \<in> set kn" and ys: "set ys \<subseteq> set kn" by simp_all
  with Cons.prems(1) have "staged_ok kn (infer_inner kn s1 kn inferred)"
    by (simp add: infer_inner_staged_ok)
  from Cons.IH [OF this ys] show ?case by simp
qed

text \<open>
  C1. \<^verbatim>\<open>infer_new_sentences\<close> only appends to \<open>knowledge\<close>. For every two sentences \<open>s1\<close>,
  \<open>s2\<close> of the knowledge list that are not equal and have the cells of \<open>s1\<close> among the
  cells of \<open>s2\<close>, the sentence with cells \<open>s2.cells - s1.cells\<close> and count
  \<open>s2.count - s1.count\<close> is in the knowledge list afterwards: it was there already or
  it is appended. What is appended is not in the old knowledge list, is appended once,
  and comes from such a pair. With \<open>{A, B, C}\<close> count 1 and \<open>{A, B}\<close> count 1 in the
  knowledge list (\<open>C\<close> different from \<open>A\<close> and \<open>B\<close>), \<open>{C}\<close> count 0 is in it afterwards.
\<close>

theorem infer_new_sentences_spec:
  "(\<exists>inferred.
      infer_new_sentences a = a\<lparr>knowledge := knowledge a @ inferred\<rparr> \<and>
      distinct inferred \<and> set inferred \<inter> set (knowledge a) = {} \<and>
      (\<forall>s \<in> set inferred. \<exists>s1 \<in> set (knowledge a). \<exists>s2 \<in> set (knowledge a).
         s1 \<noteq> s2 \<and> cells s1 |\<subseteq>| cells s2 \<and>
         s = Sentence (cells s2 |-| cells s1) (count s2 - count s1)) \<and>
      (\<forall>s1 \<in> set (knowledge a). \<forall>s2 \<in> set (knowledge a).
         s1 \<noteq> s2 \<and> cells s1 |\<subseteq>| cells s2 \<longrightarrow>
         Sentence (cells s2 |-| cells s1) (count s2 - count s1) \<in> set (knowledge a) \<union> set inferred)) \<and>
   (C \<noteq> A \<and> C \<noteq> B \<and> Sentence {|A, B, C|} 1 \<in> set (knowledge a) \<and>
    Sentence {|A, B|} 1 \<in> set (knowledge a) \<longrightarrow>
      Sentence {|C|} 0 \<in> set (knowledge (infer_new_sentences a)))"
proof -
  let ?kn = "knowledge a"
  let ?inferred = "infer_outer ?kn ?kn []"
  have eq: "infer_new_sentences a = a\<lparr>knowledge := ?kn @ ?inferred\<rparr>"
    by (simp add: infer_new_sentences_def)
  have "staged_ok ?kn []" by (simp add: staged_ok_def)
  then have ok: "staged_ok ?kn ?inferred" by (rule infer_outer_staged_ok) simp
  have complete: "\<forall>s1 \<in> set ?kn. \<forall>s2 \<in> set ?kn.
         s1 \<noteq> s2 \<and> cells s1 |\<subseteq>| cells s2 \<longrightarrow>
         Sentence (cells s2 |-| cells s1) (count s2 - count s1) \<in> set ?kn \<union> set ?inferred"
    using infer_outer_complete [of _ ?kn _ ?kn "[]"] by blast
  have example: "Sentence {|C|} 0 \<in> set (knowledge (infer_new_sentences a))"
    if "C \<noteq> A" "C \<noteq> B" "Sentence {|A, B, C|} 1 \<in> set ?kn" "Sentence {|A, B|} 1 \<in> set ?kn"
  proof -
    let ?s1 = "Sentence {|A, B|} 1" and ?s2 = "Sentence {|A, B, C|} 1"
    from that(1,2) have "cells ?s2 \<noteq> cells ?s1" by (auto simp: Sentence_def)
    then have "?s1 \<noteq> ?s2" by auto
    moreover have "cells ?s1 |\<subseteq>| cells ?s2" by (auto simp: Sentence_def)
    ultimately have "Sentence (cells ?s2 |-| cells ?s1) (count ?s2 - count ?s1)
                       \<in> set ?kn \<union> set ?inferred"
      using complete that(3,4) by blast
    moreover from that(1,2) have "cells ?s2 |-| cells ?s1 = {|C|}" by (auto simp: Sentence_def)
    moreover have "count ?s2 - count ?s1 = 0" by (simp add: Sentence_def)
    ultimately show ?thesis by (simp add: eq)
  qed
  from eq ok complete have "\<exists>inferred.
      infer_new_sentences a = a\<lparr>knowledge := ?kn @ inferred\<rparr> \<and>
      distinct inferred \<and> set inferred \<inter> set ?kn = {} \<and>
      (\<forall>s \<in> set inferred. \<exists>s1 \<in> set ?kn. \<exists>s2 \<in> set ?kn.
         s1 \<noteq> s2 \<and> cells s1 |\<subseteq>| cells s2 \<and>
         s = Sentence (cells s2 |-| cells s1) (count s2 - count s1)) \<and>
      (\<forall>s1 \<in> set ?kn. \<forall>s2 \<in> set ?kn.
         s1 \<noteq> s2 \<and> cells s1 |\<subseteq>| cells s2 \<longrightarrow>
         Sentence (cells s2 |-| cells s1) (count s2 - count s1) \<in> set ?kn \<union> set inferred)"
    unfolding staged_ok_def by (intro exI [of _ ?inferred] conjI) blast+
  with example show ?thesis by blast
qed

theorem infer_new_sentences_spec_witness:
  "(0, 2) \<noteq> ((0, 0) :: cell) \<and> (0, 2) \<noteq> ((0, 1) :: cell) \<and>
   Sentence {|(0, 0), (0, 1), (0, 2)|} 1
     \<in> set (knowledge (MinesweeperAI 1 3\<lparr>knowledge :=
           [Sentence {|(0, 0), (0, 1), (0, 2)|} 1, Sentence {|(0, 0), (0, 1)|} 1]\<rparr>)) \<and>
   Sentence {|(0, 0), (0, 1)|} 1
     \<in> set (knowledge (MinesweeperAI 1 3\<lparr>knowledge :=
           [Sentence {|(0, 0), (0, 1), (0, 2)|} 1, Sentence {|(0, 0), (0, 1)|} 1]\<rparr>)) \<and>
   Sentence {|(0, 2)|} 0
     \<in> set (knowledge (infer_new_sentences (MinesweeperAI 1 3\<lparr>knowledge :=
           [Sentence {|(0, 0), (0, 1), (0, 2)|} 1, Sentence {|(0, 0), (0, 1)|} 1]\<rparr>))) \<and>
   knowledge (infer_new_sentences (MinesweeperAI 1 3\<lparr>knowledge :=
           [Sentence {|(0, 0), (0, 1), (0, 2)|} 1, Sentence {|(0, 0), (0, 1)|} 1]\<rparr>)) =
     [Sentence {|(0, 0), (0, 1), (0, 2)|} 1, Sentence {|(0, 0), (0, 1)|} 1,
      Sentence {|(0, 2)|} 0]"
proof -
  let ?a = "MinesweeperAI 1 3\<lparr>knowledge :=
           [Sentence {|(0, 0), (0, 1), (0, 2)|} 1, Sentence {|(0, 0), (0, 1)|} 1]\<rparr>"
  have h: "(0, 2) \<noteq> ((0, 0) :: cell) \<and> (0, 2) \<noteq> ((0, 1) :: cell) \<and>
           Sentence {|(0, 0), (0, 1), (0, 2)|} 1 \<in> set (knowledge ?a) \<and>
           Sentence {|(0, 0), (0, 1)|} 1 \<in> set (knowledge ?a)"
    by simp
  have run: "knowledge (infer_new_sentences ?a) =
     [Sentence {|(0, 0), (0, 1), (0, 2)|} 1, Sentence {|(0, 0), (0, 1)|} 1,
      Sentence {|(0, 2)|} 0]"
    by code_simp
  from infer_new_sentences_spec [of ?a "(0, 2)" "(0, 0)" "(0, 1)"] h run
  show ?thesis by blast
qed

subsection \<open>The loops over a set do not depend on the order of iteration\<close>

lemma fset_of_list_cong: "set xs = set ys \<Longrightarrow> fset_of_list xs = fset_of_list ys"
  by (simp add: fset_of_list.rep_eq flip: fset_inject)

lemma Sentence_mark_safe_alt: "Sentence_mark_safe s c = s\<lparr>cells := cells s |-| {|c|}\<rparr>"
proof (cases "c |\<in>| cells s")
  case True
  then show ?thesis by (simp add: Sentence_mark_safe_def)
next
  case False
  then have "cells s |-| {|c|} = cells s" by auto
  with False show ?thesis by (simp add: Sentence_mark_safe_def)
qed

lemma foldl_mark_safe_closed:
  "foldl mark_safe a xs =
   a\<lparr>safes := safes a |\<union>| fset_of_list xs,
     knowledge := map (\<lambda>s. s\<lparr>cells := cells s |-| fset_of_list xs\<rparr>) (knowledge a)\<rparr>"
proof (induction xs arbitrary: a)
  case Nil
  show ?case by simp
next
  case (Cons x xs)
  have 1: "finsert x (safes a) |\<union>| fset_of_list xs = safes a |\<union>| finsert x (fset_of_list xs)"
    by auto
  have 2: "\<And>cs. cs |-| {|x|} |-| fset_of_list xs = cs |-| finsert x (fset_of_list xs)"
    by auto
  have "foldl mark_safe a (x # xs) = foldl mark_safe (mark_safe a x) xs" by simp
  also have "\<dots> = (mark_safe a x)\<lparr>safes := safes (mark_safe a x) |\<union>| fset_of_list xs,
     knowledge := map (\<lambda>s. s\<lparr>cells := cells s |-| fset_of_list xs\<rparr>)
                    (knowledge (mark_safe a x))\<rparr>"
    by (rule Cons.IH)
  also have "\<dots> = a\<lparr>safes := safes a |\<union>| fset_of_list (x # xs),
     knowledge := map (\<lambda>s. s\<lparr>cells := cells s |-| fset_of_list (x # xs)\<rparr>) (knowledge a)\<rparr>"
    by (simp add: mark_safe_def Sentence_mark_safe_alt 1 2 comp_def)
  finally show ?case .
qed

lemma foldl_mark_safe:
  "set xs = set ys \<Longrightarrow> foldl mark_safe a xs = foldl mark_safe a ys"
  by (simp only: foldl_mark_safe_closed fset_of_list_cong [of xs ys])

lemma Sentence_mark_mine_alt:
  "Sentence_mark_mine s c =
   s\<lparr>cells := cells s |-| {|c|}, count := count s - int (fcard (cells s |\<inter>| {|c|}))\<rparr>"
proof (cases "c |\<in>| cells s")
  case True
  then have "cells s |\<inter>| {|c|} = {|c|}" by auto
  with True show ?thesis by (simp add: Sentence_mark_mine_def fcard_finsert_if)
next
  case False
  then have "cells s |-| {|c|} = cells s" and "cells s |\<inter>| {|c|} = {||}" by auto
  with False show ?thesis by (simp add: Sentence_mark_mine_def)
qed

lemma fcard_inter_finsert:
  assumes "x |\<notin>| F"
  shows "int (fcard (cs |\<inter>| {|x|})) + int (fcard ((cs |-| {|x|}) |\<inter>| F)) =
         int (fcard (cs |\<inter>| finsert x F))"
proof -
  from assms have "cs |\<inter>| finsert x F = (cs |\<inter>| {|x|}) |\<union>| ((cs |-| {|x|}) |\<inter>| F)"
    and "(cs |\<inter>| {|x|}) |\<inter>| ((cs |-| {|x|}) |\<inter>| F) = {||}" by auto
  then show ?thesis by (simp only: fcard_funion_disjoint of_nat_add)
qed

lemma foldl_mark_mine_closed:
  "distinct xs \<Longrightarrow>
   foldl mark_mine a xs =
   a\<lparr>mines := mines a |\<union>| fset_of_list xs,
     knowledge := map (\<lambda>s. s\<lparr>cells := cells s |-| fset_of_list xs,
                             count := count s - int (fcard (cells s |\<inter>| fset_of_list xs))\<rparr>)
                    (knowledge a)\<rparr>"
proof (induction xs arbitrary: a)
  case Nil
  show ?case by (simp add: fcard_fempty)
next
  case (Cons x xs)
  then have x: "x |\<notin>| fset_of_list xs" and d: "distinct xs" by (simp_all add: fset_of_list.rep_eq)
  have 1: "finsert x (mines a) |\<union>| fset_of_list xs = mines a |\<union>| finsert x (fset_of_list xs)"
    by auto
  have 2: "\<And>cs. cs |-| {|x|} |-| fset_of_list xs = cs |-| finsert x (fset_of_list xs)"
    by auto
  have 3: "\<And>cs (n :: int). n - int (fcard (cs |\<inter>| {|x|})) - int (fcard ((cs |-| {|x|}) |\<inter>| fset_of_list xs))
             = n - int (fcard (cs |\<inter>| finsert x (fset_of_list xs)))"
    using fcard_inter_finsert [OF x] by (simp add: algebra_simps)
  have "foldl mark_mine a (x # xs) = foldl mark_mine (mark_mine a x) xs" by simp
  also from d have "\<dots> = (mark_mine a x)\<lparr>mines := mines (mark_mine a x) |\<union>| fset_of_list xs,
     knowledge := map (\<lambda>s. s\<lparr>cells := cells s |-| fset_of_list xs,
                             count := count s - int (fcard (cells s |\<inter>| fset_of_list xs))\<rparr>)
                    (knowledge (mark_mine a x))\<rparr>"
    by (rule Cons.IH)
  also have "\<dots> = a\<lparr>mines := mines a |\<union>| fset_of_list (x # xs),
     knowledge := map (\<lambda>s. s\<lparr>cells := cells s |-| fset_of_list (x # xs),
                             count := count s - int (fcard (cells s |\<inter>| fset_of_list (x # xs)))\<rparr>)
                    (knowledge a)\<rparr>"
    by (simp add: mark_mine_def Sentence_mark_mine_alt 1 2 3 comp_def)
  finally show ?case .
qed

lemma foldl_mark_mine:
  "distinct xs \<Longrightarrow> distinct ys \<Longrightarrow> set xs = set ys \<Longrightarrow>
   foldl mark_mine a xs = foldl mark_mine a ys"
  by (simp only: foldl_mark_mine_closed fset_of_list_cong [of xs ys])

subsection \<open>What each operation does to the sets of the engine\<close>

lemma foldl_mark_safe_fields:
  "safes (foldl mark_safe a xs) = safes a |\<union>| fset_of_list xs"
  "mines (foldl mark_safe a xs) = mines a"
  "moves_made (foldl mark_safe a xs) = moves_made a"
  "height (foldl mark_safe a xs) = height a"
  "width (foldl mark_safe a xs) = width a"
  by (induction xs arbitrary: a) (auto simp: mark_safe_def)

lemma foldl_mark_mine_fields:
  "mines (foldl mark_mine a xs) = mines a |\<union>| fset_of_list xs"
  "safes (foldl mark_mine a xs) = safes a"
  "moves_made (foldl mark_mine a xs) = moves_made a"
  "height (foldl mark_mine a xs) = height a"
  "width (foldl mark_mine a xs) = width a"
  by (induction xs arbitrary: a) (auto simp: mark_mine_def)

lemma kb_body_fields:
  "safes (fst (kb_body a i changes)) = safes a |\<union>| known_safes (knowledge a ! i)"
  "mines (fst (kb_body a i changes)) = mines a |\<union>| known_mines (knowledge a ! i)"
  "moves_made (fst (kb_body a i changes)) = moves_made a"
  "height (fst (kb_body a i changes)) = height a"
  "width (fst (kb_body a i changes)) = width a"
  by (simp_all add: kb_body_def Let_def foldl_mark_safe_fields foldl_mark_mine_fields)

lemma kb_for_fields:
  "safes a |\<subseteq>| safes (fst (kb_for i a changes)) \<and>
   mines a |\<subseteq>| mines (fst (kb_for i a changes)) \<and>
   moves_made (fst (kb_for i a changes)) = moves_made a \<and>
   height (fst (kb_for i a changes)) = height a \<and>
   width (fst (kb_for i a changes)) = width a"
proof (induction i a changes rule: kb_for.induct)
  case (1 i a changes)
  show ?case
  proof (cases "i < length (knowledge a)")
    case False
    then show ?thesis by (simp add: kb_for.simps [of i a changes])
  next
    case True
    have eq: "kb_for i a changes =
              kb_for (Suc i) (fst (kb_body a i changes)) (snd (kb_body a i changes))"
      using True by (simp add: kb_for.simps [of i a changes])
    from "1.IH" [OF True] show ?thesis
      unfolding eq by (auto simp: kb_body_fields)
  qed
qed

lemma update_loop_fields:
  "safes a |\<subseteq>| safes (update_loop a) \<and>
   mines a |\<subseteq>| mines (update_loop a) \<and>
   moves_made (update_loop a) = moves_made a \<and>
   height (update_loop a) = height a \<and>
   width (update_loop a) = width a"
proof (induction a rule: update_loop.induct)
  case (1 a)
  note pass = kb_for_fields [of a 0 False, folded kb_pass_def]
  show ?case
  proof (cases "snd (kb_pass a)")
    case False
    then have "update_loop a = fst (kb_pass a)" by (simp add: update_loop_unfold [of a])
    with pass show ?thesis by simp
  next
    case True
    then have "kb_pass a = (fst (kb_pass a), True)" by (simp add: prod_eq_iff)
    from "1.IH" [OF this [symmetric]] pass True show ?thesis
      by (auto simp: update_loop_unfold [of a])
  qed
qed

lemma update_knowledge_base_fields:
  "safes a |\<subseteq>| safes (update_knowledge_base a) \<and>
   mines a |\<subseteq>| mines (update_knowledge_base a) \<and>
   moves_made (update_knowledge_base a) = moves_made a \<and>
   height (update_knowledge_base a) = height a \<and>
   width (update_knowledge_base a) = width a"
  using update_loop_fields [of a] by (simp add: update_knowledge_base_def Let_def)

lemma infer_new_sentences_fields:
  "safes (infer_new_sentences a) = safes a"
  "mines (infer_new_sentences a) = mines a"
  "moves_made (infer_new_sentences a) = moves_made a"
  "height (infer_new_sentences a) = height a"
  "width (infer_new_sentences a) = width a"
  by (simp_all add: infer_new_sentences_def Let_def)

lemma add_knowledge_fields:
  "safes a |\<subseteq>| safes (add_knowledge a cell n) \<and>
   mines a |\<subseteq>| mines (add_knowledge a cell n) \<and>
   height (add_knowledge a cell n) = height a \<and>
   width (add_knowledge a cell n) = width a"
proof -
  let ?a3 = "(mark_safe (a\<lparr>moves_made := finsert cell (moves_made a)\<rparr>) cell)
       \<lparr>knowledge := knowledge (mark_safe (a\<lparr>moves_made := finsert cell (moves_made a)\<rparr>) cell) @
          [Sentence (fset_of_list (find_cell_neighbors
             (mark_safe (a\<lparr>moves_made := finsert cell (moves_made a)\<rparr>) cell) cell)) n]\<rparr>"
  have eq: "add_knowledge a cell n = infer_new_sentences (update_knowledge_base ?a3)"
    by (simp add: add_knowledge_def Let_def)
  have "safes a |\<subseteq>| safes ?a3" "mines a |\<subseteq>| mines ?a3"
       "height ?a3 = height a" "width ?a3 = width a"
    by (auto simp: mark_safe_def)
  with update_knowledge_base_fields [of ?a3] show ?thesis
    unfolding eq infer_new_sentences_fields by auto
qed

lemma observe_all_append:
  "observe_all a (obs @ rest) = observe_all (observe_all a obs) rest"
  by (simp add: observe_all_def)

lemma observe_all_fields:
  "safes a |\<subseteq>| safes (observe_all a obs) \<and>
   mines a |\<subseteq>| mines (observe_all a obs) \<and>
   height (observe_all a obs) = height a \<and>
   width (observe_all a obs) = width a"
proof (induction obs arbitrary: a)
  case Nil
  show ?case by (simp add: observe_all_def)
next
  case (Cons ob obs)
  obtain cell n where ob: "ob = (cell, n)" by (cases ob)
  have "observe_all a (ob # obs) = observe_all (add_knowledge a cell n) obs"
    by (simp add: observe_all_def ob)
  with Cons.IH [of "add_knowledge a cell n"] add_knowledge_fields [of a cell n]
  show ?case by auto
qed

subsection \<open>Agreement with a board\<close>

text \<open>
  An engine state agrees with a board (given by its set of mined cells) when no safe
  cell and no move is mined, every cell of \<open>mines\<close> is mined, and every sentence counts
  the mined cells among its cells.
\<close>

definition sound :: "cell fset \<Rightarrow> ai \<Rightarrow> bool" where
  "sound board a \<longleftrightarrow>
     safes a |\<inter>| board = {||} \<and> mines a |\<subseteq>| board \<and> moves_made a |\<inter>| board = {||} \<and>
     (\<forall>s \<in> set (knowledge a). count s = int (fcard (cells s |\<inter>| board)))"

lemma Sentence_mark_safe_sound:
  assumes "count s = int (fcard (cells s |\<inter>| board))" and "c |\<notin>| board"
  shows "count (Sentence_mark_safe s c) = int (fcard (cells (Sentence_mark_safe s c) |\<inter>| board))"
proof -
  from assms(2) have "(cells s |-| {|c|}) |\<inter>| board = cells s |\<inter>| board" by auto
  with assms(1) show ?thesis by (simp add: Sentence_mark_safe_def)
qed

lemma Sentence_mark_mine_sound:
  assumes "count s = int (fcard (cells s |\<inter>| board))" and "c |\<in>| board"
  shows "count (Sentence_mark_mine s c) = int (fcard (cells (Sentence_mark_mine s c) |\<inter>| board))"
proof (cases "c |\<in>| cells s")
  case False
  with assms(1) show ?thesis by (simp add: Sentence_mark_mine_def)
next
  case True
  with assms(2) have "cells s |\<inter>| board = finsert c ((cells s |-| {|c|}) |\<inter>| board)"
    and "c |\<notin>| (cells s |-| {|c|}) |\<inter>| board" by auto
  then have "fcard (cells s |\<inter>| board) = Suc (fcard ((cells s |-| {|c|}) |\<inter>| board))"
    by (metis fcard_finsert_disjoint)
  with assms(1) True show ?thesis by (simp add: Sentence_mark_mine_def)
qed

lemma mark_safe_sound:
  assumes "sound board a" and "c |\<notin>| board"
  shows "sound board (mark_safe a c)"
  using assms by (auto simp: sound_def mark_safe_def Sentence_mark_safe_sound)

lemma mark_mine_sound:
  assumes "sound board a" and "c |\<in>| board"
  shows "sound board (mark_mine a c)"
  using assms by (auto simp: sound_def mark_mine_def Sentence_mark_mine_sound)

lemma foldl_mark_safe_sound:
  assumes "sound board a" and "\<forall>c \<in> set xs. c |\<notin>| board"
  shows "sound board (foldl mark_safe a xs)"
  using assms by (induction xs arbitrary: a) (simp_all add: mark_safe_sound)

lemma foldl_mark_mine_sound:
  assumes "sound board a" and "\<forall>c \<in> set xs. c |\<in>| board"
  shows "sound board (foldl mark_mine a xs)"
  using assms by (induction xs arbitrary: a) (simp_all add: mark_mine_sound)

lemma known_safes_sound:
  assumes "count s = int (fcard (cells s |\<inter>| board))" and "c |\<in>| known_safes s"
  shows "c |\<notin>| board"
proof -
  from assms have "count s = 0" and "c |\<in>| cells s"
    by (auto simp: known_safes_def split: if_splits)
  with assms(1) have "fcard (cells s |\<inter>| board) = 0" by simp
  then have "cells s |\<inter>| board = {||}" by (simp add: fcard_0_eq)
  with \<open>c |\<in>| cells s\<close> show ?thesis by auto
qed

lemma known_mines_sound:
  assumes "count s = int (fcard (cells s |\<inter>| board))" and "c |\<in>| known_mines s"
  shows "c |\<in>| board"
proof -
  from assms have "count s = int (fcard (cells s))" and "c |\<in>| cells s"
    by (auto simp: known_mines_def split: if_splits)
  with assms(1) have "fcard (cells s |\<inter>| board) = fcard (cells s)" by simp
  moreover have "cells s |\<inter>| board |\<subseteq>| cells s" by auto
  ultimately have "cells s |\<inter>| board = cells s" by (metis fcard_seteq order_refl)
  with \<open>c |\<in>| cells s\<close> show ?thesis by auto
qed

lemma set_set_iter [simp]: "set (set_iter S) = fset S"
  by (simp add: set_iter_def)

lemma kb_body_sound:
  assumes "sound board a" and "i < length (knowledge a)"
  shows "sound board (fst (kb_body a i changes))"
proof -
  let ?s = "knowledge a ! i"
  from assms have s: "count ?s = int (fcard (cells ?s |\<inter>| board))"
    by (simp add: sound_def)
  let ?a1 = "if known_safes ?s \<noteq> {||} then foldl mark_safe a (set_iter (known_safes ?s)) else a"
  have "sound board ?a1"
    using assms(1) known_safes_sound [OF s] by (simp add: foldl_mark_safe_sound)
  then have "sound board
     (if known_mines ?s \<noteq> {||} then foldl mark_mine ?a1 (set_iter (known_mines ?s)) else ?a1)"
    using known_mines_sound [OF s] by (simp add: foldl_mark_mine_sound)
  then show ?thesis by (simp add: kb_body_def Let_def)
qed

lemma kb_for_sound:
  "sound board a \<Longrightarrow> sound board (fst (kb_for i a changes))"
proof (induction i a changes rule: kb_for.induct)
  case (1 i a changes)
  show ?case
  proof (cases "i < length (knowledge a)")
    case False
    with "1.prems" show ?thesis by (simp add: kb_for.simps [of i a changes])
  next
    case True
    have eq: "kb_for i a changes =
              kb_for (Suc i) (fst (kb_body a i changes)) (snd (kb_body a i changes))"
      using True by (simp add: kb_for.simps [of i a changes])
    from "1.prems" True have "sound board (fst (kb_body a i changes))" by (rule kb_body_sound)
    from "1.IH" [OF True this] show ?thesis unfolding eq .
  qed
qed

lemma update_loop_sound:
  "sound board a \<Longrightarrow> sound board (update_loop a)"
proof (induction a rule: update_loop.induct)
  case (1 a)
  from "1.prems" have pass: "sound board (fst (kb_pass a))"
    unfolding kb_pass_def by (rule kb_for_sound)
  show ?case
  proof (cases "snd (kb_pass a)")
    case False
    with pass show ?thesis by (simp add: update_loop_unfold [of a])
  next
    case True
    then have "kb_pass a = (fst (kb_pass a), True)" by (simp add: prod_eq_iff)
    from "1.IH" [OF this [symmetric] _ pass] True show ?thesis
      by (simp add: update_loop_unfold [of a])
  qed
qed

lemma update_knowledge_base_sound:
  "sound board a \<Longrightarrow> sound board (update_knowledge_base a)"
  using update_loop_sound [of board a]
  by (auto simp: update_knowledge_base_def Let_def sound_def)



lemma difference_sound:
  assumes "count s1 = int (fcard (cells s1 |\<inter>| board))"
    and "count s2 = int (fcard (cells s2 |\<inter>| board))"
    and "cells s1 |\<subseteq>| cells s2"
  shows "count s2 - count s1 = int (fcard ((cells s2 |-| cells s1) |\<inter>| board))"
proof -
  let ?A = "cells s1 |\<inter>| board" and ?D = "(cells s2 |-| cells s1) |\<inter>| board"
  from assms(3) have "cells s2 |\<inter>| board = ?A |\<union>| ?D" by auto
  moreover have "?A |\<inter>| ?D = {||}" by auto
  ultimately have "fcard (cells s2 |\<inter>| board) = fcard ?A + fcard ?D"
    by (simp only: fcard_funion_disjoint)
  with assms(1,2) show ?thesis by simp
qed

lemma staged_sound:
  assumes "staged_ok kn inferred"
    and "\<forall>s \<in> set kn. count s = int (fcard (cells s |\<inter>| board))"
    and "s \<in> set inferred"
  shows "count s = int (fcard (cells s |\<inter>| board))"
proof -
  from assms(1,3) obtain s1 s2 where
    p: "s1 \<in> set kn" "s2 \<in> set kn" "cells s1 |\<subseteq>| cells s2"
       "s = Sentence (cells s2 |-| cells s1) (count s2 - count s1)"
    unfolding staged_ok_def by blast
  from p(1,2) assms(2) have "count s1 = int (fcard (cells s1 |\<inter>| board))"
    and "count s2 = int (fcard (cells s2 |\<inter>| board))" by blast+
  from difference_sound [OF this p(3)] show ?thesis by (simp add: p(4) Sentence_def)
qed

lemma infer_new_sentences_sound:
  assumes "sound board a"
  shows "sound board (infer_new_sentences a)"
proof -
  let ?kn = "knowledge a"
  have "staged_ok ?kn []" by (simp add: staged_ok_def)
  then have ok: "staged_ok ?kn (infer_outer ?kn ?kn [])" by (rule infer_outer_staged_ok) simp
  from assms have kn: "\<forall>s \<in> set ?kn. count s = int (fcard (cells s |\<inter>| board))"
    by (simp add: sound_def)
  have "\<forall>s \<in> set (infer_outer ?kn ?kn []). count s = int (fcard (cells s |\<inter>| board))"
    using staged_sound [OF ok kn] by blast
  with assms show ?thesis
    by (simp add: sound_def infer_new_sentences_def Let_def ball_Un)
qed

lemma upto_three: "[r - 1 .. r + 1] = [r - 1, r, r + 1 :: int]"
proof -
  have "[r - 1 .. r + 1] = (r - 1) # [r .. r + 1]" by (simp add: upto_rec1 [of "r - 1"])
  also have "[r .. r + 1] = r # [r + 1 .. r + 1]" by (simp add: upto_rec1 [of r])
  finally show ?thesis by simp
qed

lemma comprehension_filter:
  "[(i, j). i \<leftarrow> xs, j \<leftarrow> ys, Q (i, j)] = filter Q (List.product xs ys)"
proof (induction xs)
  case Nil
  show ?case by simp
next
  case (Cons x xs)
  have "concat (map (\<lambda>j. if Q (x, j) then [(x, j)] else []) ys) = filter Q (map (Pair x) ys)"
    by (induction ys) simp_all
  with Cons show ?case by simp
qed

lemma nearby_mines_card:
  "nearby_mines h w board (r, c) =
   int (card {x \<in> {(r - 1, c - 1), (r - 1, c), (r - 1, c + 1), (r, c - 1), (r, c + 1),
                    (r + 1, c - 1), (r + 1, c), (r + 1, c + 1)}.
              (0 \<le> fst x \<and> fst x < h \<and> 0 \<le> snd x \<and> snd x < w) \<and> x |\<in>| board})"
proof -
  define P where "P = (\<lambda>x :: cell. (0 \<le> fst x \<and> fst x < h \<and> 0 \<le> snd x \<and> snd x < w) \<and> x |\<in>| board)"
  define eight where "eight = {(r - 1, c - 1), (r - 1, c), (r - 1, c + 1), (r, c - 1), (r, c + 1),
                    (r + 1, c - 1), (r + 1, c), (r + 1, c + 1)}"
  define nine where "nine = List.product [r - 1, r, r + 1] [c - 1, c, c + 1]"
  have nine: "distinct nine" "set nine = insert (r, c) eight" "(r, c) \<notin> eight"
    unfolding nine_def eight_def by (simp, auto)
  have "nearby_mines h w board (r, c) =
        int (length [(i, j). i \<leftarrow> [r - 1, r, r + 1], j \<leftarrow> [c - 1, c, c + 1],
                             (i, j) \<noteq> (r, c) \<and> P (i, j)])"
    unfolding nearby_mines_def P_def by (simp only: fst_conv snd_conv upto_three)
  also have "[(i, j). i \<leftarrow> [r - 1, r, r + 1], j \<leftarrow> [c - 1, c, c + 1],
                      (i, j) \<noteq> (r, c) \<and> P (i, j)] =
             filter (\<lambda>x. x \<noteq> (r, c) \<and> P x) nine"
    unfolding nine_def by (rule comprehension_filter [of "\<lambda>x. x \<noteq> (r, c) \<and> P x"])
  also have "length (filter (\<lambda>x. x \<noteq> (r, c) \<and> P x) nine) =
             card ({x. x \<noteq> (r, c) \<and> P x} \<inter> set nine)"
    using nine(1) by (rule distinct_length_filter)
  also have "{x. x \<noteq> (r, c) \<and> P x} \<inter> set nine = {x \<in> eight. P x}"
    using nine(2,3) by blast
  finally show ?thesis unfolding eight_def P_def .
qed


lemma find_cell_neighbors_card:
  assumes "moves_made a |\<inter>| board = {||}"
  shows "int (fcard (fset_of_list (find_cell_neighbors a (r, c)) |\<inter>| board)) =
         nearby_mines (height a) (width a) board (r, c)"
proof -
  define inb where "inb = (\<lambda>x :: cell. 0 \<le> fst x \<and> fst x < height a \<and> 0 \<le> snd x \<and> snd x < width a)"
  define eight where "eight = {(r - 1, c - 1), (r - 1, c), (r - 1, c + 1), (r, c - 1), (r, c + 1),
                    (r + 1, c - 1), (r + 1, c), (r + 1, c + 1)}"
  define candidates where "candidates =
     [(r - 1, c), (r + 1, c), (r, c - 1), (r, c + 1),
      (r - 1, c - 1), (r - 1, c + 1), (r + 1, c - 1), (r + 1, c + 1)]"
  have set_candidates: "set candidates = eight"
    unfolding candidates_def eight_def by auto
  have "find_cell_neighbors a (r, c) =
        filter (\<lambda>x. x |\<notin>| moves_made a \<and> 0 \<le> fst x \<and> fst x < height a \<and> 0 \<le> snd x \<and> snd x < width a)
          candidates"
    unfolding candidates_def
    by (simp only: find_cell_neighbors_def Let_def case_prod_beta fst_conv snd_conv)
  then have "set (find_cell_neighbors a (r, c)) = {x \<in> eight. x |\<notin>| moves_made a \<and> inb x}"
    by (simp only: set_filter set_candidates inb_def)
  moreover from assms have "\<And>x. x |\<in>| board \<Longrightarrow> x |\<notin>| moves_made a" by auto
  ultimately have "fset (fset_of_list (find_cell_neighbors a (r, c)) |\<inter>| board) =
                   {x \<in> eight. inb x \<and> x |\<in>| board}"
    by (auto simp: fset_of_list.rep_eq)
  then show ?thesis
    unfolding eight_def inb_def by (simp only: nearby_mines_card fcard.rep_eq)
qed

lemma add_knowledge_sound:
  assumes "sound board a" and "cell |\<notin>| board"
    and "n = nearby_mines (height a) (width a) board cell"
  shows "sound board (add_knowledge a cell n)"
proof -
  let ?a1 = "a\<lparr>moves_made := finsert cell (moves_made a)\<rparr>"
  let ?a2 = "mark_safe ?a1 cell"
  let ?new = "Sentence (fset_of_list (find_cell_neighbors ?a2 cell)) n"
  let ?a3 = "?a2\<lparr>knowledge := knowledge ?a2 @ [?new]\<rparr>"
  have eq: "add_knowledge a cell n = infer_new_sentences (update_knowledge_base ?a3)"
    by (simp add: add_knowledge_def Let_def)
  from assms(1,2) have "sound board ?a1" by (auto simp: sound_def)
  with assms(2) have a2: "sound board ?a2" by (rule mark_safe_sound [rotated])
  then have "moves_made ?a2 |\<inter>| board = {||}" by (simp add: sound_def)
  from find_cell_neighbors_card [OF this, of "fst cell" "snd cell"] assms(3)
  have "count ?new = int (fcard (cells ?new |\<inter>| board))"
    by (simp add: Sentence_def mark_safe_def)
  with a2 have "sound board ?a3" by (simp add: sound_def)
  then show ?thesis
    unfolding eq by (intro infer_new_sentences_sound update_knowledge_base_sound)
qed

lemma observe_all_sound:
  assumes "sound board a"
    and "\<forall>(cell, n) \<in> set obs. cell |\<notin>| board \<and> n = nearby_mines (height a) (width a) board cell"
  shows "sound board (observe_all a obs)"
  using assms
proof (induction obs arbitrary: a)
  case Nil
  then show ?case by (simp add: observe_all_def)
next
  case (Cons ob obs)
  obtain cell n where ob: "ob = (cell, n)" by (cases ob)
  have eq: "observe_all a (ob # obs) = observe_all (add_knowledge a cell n) obs"
    by (simp add: observe_all_def ob)
  from Cons.prems ob have "sound board (add_knowledge a cell n)"
    by (intro add_knowledge_sound) auto
  moreover from Cons.prems(2) add_knowledge_fields [of a cell n]
  have "\<forall>(cell', n') \<in> set obs. cell' |\<notin>| board \<and>
          n' = nearby_mines (height (add_knowledge a cell n)) (width (add_knowledge a cell n)) board cell'"
    by simp
  ultimately show ?case unfolding eq by (rule Cons.IH)
qed

lemma sound_disjoint: "sound board a \<Longrightarrow> safes a |\<inter>| mines a = {||}"
  by (auto simp: sound_def)

text \<open>
  C3. Over any sequence of \<^verbatim>\<open>add_knowledge\<close> calls, from any engine state, \<open>safes\<close> and
  \<open>mines\<close> only grow: what is in them after some calls is in them after any further
  calls. From a fresh engine they are disjoint after every call, provided that the
  observations come from one board: no observed cell is mined, and each count is the
  number of mined cells that \<^verbatim>\<open>nearby_mines\<close> reports for the cell.
\<close>

theorem safes_mines_grow_disjoint:
  "safes (observe_all a obs) |\<subseteq>| safes (observe_all a (obs @ rest)) \<and>
   mines (observe_all a obs) |\<subseteq>| mines (observe_all a (obs @ rest)) \<and>
   ((\<forall>(cell, n) \<in> set obs. cell |\<notin>| board \<and> n = nearby_mines h w board cell) \<longrightarrow>
      safes (observe_all (MinesweeperAI h w) obs) |\<inter>|
      mines (observe_all (MinesweeperAI h w) obs) = {||})"
proof -
  have "sound board (MinesweeperAI h w)" by (simp add: sound_def MinesweeperAI_def)
  moreover have "height (MinesweeperAI h w) = h" "width (MinesweeperAI h w) = w"
    by (simp_all add: MinesweeperAI_def)
  ultimately have "sound board (observe_all (MinesweeperAI h w) obs)"
    if "\<forall>(cell, n) \<in> set obs. cell |\<notin>| board \<and> n = nearby_mines h w board cell"
    using that by (intro observe_all_sound) simp_all
  then have "(\<forall>(cell, n) \<in> set obs. cell |\<notin>| board \<and> n = nearby_mines h w board cell) \<longrightarrow>
      safes (observe_all (MinesweeperAI h w) obs) |\<inter>|
      mines (observe_all (MinesweeperAI h w) obs) = {||}"
    by (intro impI sound_disjoint)
  moreover have "safes (observe_all a obs) |\<subseteq>| safes (observe_all a (obs @ rest))"
    and "mines (observe_all a obs) |\<subseteq>| mines (observe_all a (obs @ rest))"
    using observe_all_fields [of "observe_all a obs" rest]
    by (simp_all add: observe_all_append)
  ultimately show ?thesis by (intro conjI)
qed

theorem safes_mines_grow_disjoint_witness:
  "(0, 0) |\<notin>| {|(0, 1) :: cell|} \<and> 1 = nearby_mines 1 3 {|(0, 1)|} (0, 0) \<and>
   (0, 2) |\<notin>| {|(0, 1) :: cell|} \<and> 1 = nearby_mines 1 3 {|(0, 1)|} (0, 2) \<and>
   safes (observe_all (MinesweeperAI 1 3) [((0, 0), 1), ((0, 2), 1)]) |\<inter>|
   mines (observe_all (MinesweeperAI 1 3) [((0, 0), 1), ((0, 2), 1)]) = {||} \<and>
   mines (observe_all (MinesweeperAI 1 3) [((0, 0), 1), ((0, 2), 1)]) = {|(0, 1)|}"
proof -
  have h: "\<forall>(cell, n) \<in> set [((0, 0), 1), ((0, 2), 1)].
      cell |\<notin>| {|(0, 1)|} \<and> n = nearby_mines 1 3 {|(0, 1)|} cell"
    by code_simp
  have run: "mines (observe_all (MinesweeperAI 1 3) [((0, 0), 1), ((0, 2), 1)]) = {|(0, 1)|}"
    by code_simp
  have h': "(0, 0) |\<notin>| {|(0, 1) :: cell|} \<and> 1 = nearby_mines 1 3 {|(0, 1)|} (0, 0) \<and>
            (0, 2) |\<notin>| {|(0, 1) :: cell|} \<and> 1 = nearby_mines 1 3 {|(0, 1)|} (0, 2)"
    using h by simp
  from safes_mines_grow_disjoint [of "MinesweeperAI 1 3" "[((0, 0), 1), ((0, 2), 1)]" "[]"
         "{|(0, 1)|}" 1 3] h h' run
  show ?thesis by blast
qed

text \<open>
  Without that proviso the sets need not stay disjoint: on a 1 by 2 board, count 1 at
  \<open>(0, 0)\<close> makes \<open>(0, 1)\<close> a mine, and observing \<open>(0, 1)\<close> afterwards makes it safe
  as well.
\<close>

theorem safes_mines_disjoint_counterexample:
  "safes (observe_all (MinesweeperAI 1 2) [((0, 0), 1), ((0, 1), 0)]) |\<inter>|
   mines (observe_all (MinesweeperAI 1 2) [((0, 0), 1), ((0, 1), 0)]) \<noteq> {||}"
  by code_simp

section \<open>Move queries\<close>

lemma random_choice_mem:
  "seq \<noteq> [] \<Longrightarrow> \<exists>c. random_choice r seq = Inr c \<and> c \<in> set seq"
  by (simp add: random_choice_def)

lemma set_safe_moves:
  "set [c. c \<leftarrow> set_iter (safes a), c |\<notin>| moves_made a] = fset (safes a |-| moves_made a)"
  by (auto simp: set_iter_def)

lemma set_random_moves:
  "set [(row, col). row \<leftarrow> [0 .. height a - 1], col \<leftarrow> [0 .. width a - 1],
                         (row, col) |\<notin>| moves_made a \<and> (row, col) |\<notin>| mines a]
   = {cell. 0 \<le> fst cell \<and> fst cell < height a \<and> 0 \<le> snd cell \<and> snd cell < width a \<and>
            cell |\<notin>| moves_made a \<and> cell |\<notin>| mines a}"
  by auto

lemma query_shape:
  assumes "(\<not> (\<exists>c. P c) \<and> f = Inr (None, a)) \<or> (\<exists>c. P c \<and> f = Inr (Some c, a))"
  shows "(\<exists>res a'. f = Inr (res, a')) \<and>
         ((\<exists>c. P c) \<longrightarrow> (\<exists>c a'. f = Inr (Some c, a') \<and> P c)) \<and>
         ((\<exists>a'. f = Inr (None, a')) \<longleftrightarrow> \<not> (\<exists>c. P c))"
  using assms by auto

lemma make_safe_move_cases:
  "(\<not> (\<exists>c. c |\<in>| safes a |-| moves_made a) \<and> make_safe_move r a = Inr (None, a)) \<or>
   (\<exists>c. c |\<in>| safes a |-| moves_made a \<and> make_safe_move r a = Inr (Some c, a))"
proof -
  define possible_moves where "possible_moves = [c. c \<leftarrow> set_iter (safes a), c |\<notin>| moves_made a]"
  have set_eq: "set possible_moves = fset (safes a |-| moves_made a)"
    unfolding possible_moves_def by (rule set_safe_moves)
  have unfold: "make_safe_move r a =
     (if possible_moves \<noteq> []
      then (case random_choice r possible_moves of Inl e \<Rightarrow> Inl e | Inr c \<Rightarrow> Inr (Some c, a))
      else Inr (None, a))"
    unfolding possible_moves_def make_safe_move_def Let_def ..
  show ?thesis
  proof (cases "possible_moves = []")
    case True
    with set_eq have "fset (safes a |-| moves_made a) = {}" by simp
    then have "\<not> (\<exists>c. c |\<in>| safes a |-| moves_made a)" by blast
    moreover from True unfold have "make_safe_move r a = Inr (None, a)" by simp
    ultimately show ?thesis by blast
  next
    case False
    from random_choice_mem [OF this, of r] obtain c where
      c: "random_choice r possible_moves = Inr c" "c \<in> set possible_moves" by blast
    from c(2) have "c |\<in>| safes a |-| moves_made a" unfolding set_eq .
    moreover from False c(1) unfold have "make_safe_move r a = Inr (Some c, a)" by simp
    ultimately show ?thesis by blast
  qed
qed

lemma make_random_move_cases:
  "(\<not> (\<exists>cell. 0 \<le> fst cell \<and> fst cell < height a \<and> 0 \<le> snd cell \<and> snd cell < width a \<and>
               cell |\<notin>| moves_made a \<and> cell |\<notin>| mines a) \<and>
    make_random_move r a = Inr (None, a)) \<or>
   (\<exists>cell. (0 \<le> fst cell \<and> fst cell < height a \<and> 0 \<le> snd cell \<and> snd cell < width a \<and>
               cell |\<notin>| moves_made a \<and> cell |\<notin>| mines a) \<and>
        make_random_move r a = Inr (Some cell, a))"
proof -
  define possible_moves where "possible_moves =
     [(row, col). row \<leftarrow> [0 .. height a - 1], col \<leftarrow> [0 .. width a - 1],
                  (row, col) |\<notin>| moves_made a \<and> (row, col) |\<notin>| mines a]"
  define free where "free = (\<lambda>cell. 0 \<le> fst cell \<and> fst cell < height a \<and> 0 \<le> snd cell \<and>
                     snd cell < width a \<and> cell |\<notin>| moves_made a \<and> cell |\<notin>| mines a)"
  have set_eq: "set possible_moves = {cell. free cell}"
    unfolding possible_moves_def free_def by (rule set_random_moves)
  have unfold: "make_random_move r a =
     (if possible_moves = [] then Inr (None, a)
      else (case random_choice r possible_moves of Inl e \<Rightarrow> Inl e | Inr c \<Rightarrow> Inr (Some c, a)))"
    unfolding possible_moves_def make_random_move_def Let_def ..
  have "(\<not> (\<exists>cell. free cell) \<and> make_random_move r a = Inr (None, a)) \<or>
        (\<exists>cell. free cell \<and> make_random_move r a = Inr (Some cell, a))"
  proof (cases "possible_moves = []")
    case True
    with set_eq have "\<not> (\<exists>cell. free cell)" by simp
    moreover from True unfold have "make_random_move r a = Inr (None, a)" by simp
    ultimately show ?thesis by blast
  next
    case False
    from random_choice_mem [OF this, of r] obtain c where
      c: "random_choice r possible_moves = Inr c" "c \<in> set possible_moves" by blast
    from c(2) have "free c" unfolding set_eq by simp
    moreover from False c(1) unfold have "make_random_move r a = Inr (Some c, a)" by simp
    ultimately show ?thesis by blast
  qed
  then show ?thesis unfolding free_def .
qed

text \<open>
  C8. \<^verbatim>\<open>make_safe_move\<close> returns a member of \<open>safes \<setminus> moves_made\<close> when that set is
  not empty, and \<^verbatim>\<open>None\<close> exactly when it is empty; \<^verbatim>\<open>make_random_move\<close> returns a cell
  of the board that is neither in \<open>moves_made\<close> nor in \<open>mines\<close> when there is one, and
  \<^verbatim>\<open>None\<close> exactly when there is none. Neither raises, whatever the generator draws.
\<close>

theorem move_queries_spec:
  "((\<exists>res a'. make_safe_move r a = Inr (res, a')) \<and>
    ((\<exists>c. c |\<in>| safes a |-| moves_made a) \<longrightarrow>
       (\<exists>c a'. make_safe_move r a = Inr (Some c, a') \<and> c |\<in>| safes a |-| moves_made a)) \<and>
    ((\<exists>a'. make_safe_move r a = Inr (None, a')) \<longleftrightarrow> \<not> (\<exists>c. c |\<in>| safes a |-| moves_made a))) \<and>
   ((\<exists>res a'. make_random_move r a = Inr (res, a')) \<and>
    ((\<exists>cell. 0 \<le> fst cell \<and> fst cell < height a \<and> 0 \<le> snd cell \<and> snd cell < width a \<and>
             cell |\<notin>| moves_made a \<and> cell |\<notin>| mines a) \<longrightarrow>
       (\<exists>cell a'. make_random_move r a = Inr (Some cell, a') \<and>
             (0 \<le> fst cell \<and> fst cell < height a \<and> 0 \<le> snd cell \<and> snd cell < width a \<and>
              cell |\<notin>| moves_made a \<and> cell |\<notin>| mines a))) \<and>
    ((\<exists>a'. make_random_move r a = Inr (None, a')) \<longleftrightarrow>
       \<not> (\<exists>cell. 0 \<le> fst cell \<and> fst cell < height a \<and> 0 \<le> snd cell \<and> snd cell < width a \<and>
                cell |\<notin>| moves_made a \<and> cell |\<notin>| mines a)))"
  by (rule conjI; rule query_shape) (rule make_safe_move_cases, rule make_random_move_cases)

theorem move_queries_spec_witness:
  "(\<exists>c. c |\<in>| safes (mark_safe (MinesweeperAI 1 1) (0, 0))
             |-| moves_made (mark_safe (MinesweeperAI 1 1) (0, 0))) \<and>
   (\<exists>c a'. make_safe_move 0 (mark_safe (MinesweeperAI 1 1) (0, 0)) = Inr (Some c, a') \<and>
      c |\<in>| safes (mark_safe (MinesweeperAI 1 1) (0, 0))
            |-| moves_made (mark_safe (MinesweeperAI 1 1) (0, 0))) \<and>
   (\<exists>cell. 0 \<le> fst cell \<and> fst cell < height (mark_safe (MinesweeperAI 1 1) (0, 0)) \<and>
      0 \<le> snd cell \<and> snd cell < width (mark_safe (MinesweeperAI 1 1) (0, 0)) \<and>
      cell |\<notin>| moves_made (mark_safe (MinesweeperAI 1 1) (0, 0)) \<and>
      cell |\<notin>| mines (mark_safe (MinesweeperAI 1 1) (0, 0))) \<and>
   (\<exists>cell a'. make_random_move 0 (mark_safe (MinesweeperAI 1 1) (0, 0)) = Inr (Some cell, a') \<and>
      (0 \<le> fst cell \<and> fst cell < height (mark_safe (MinesweeperAI 1 1) (0, 0)) \<and>
       0 \<le> snd cell \<and> snd cell < width (mark_safe (MinesweeperAI 1 1) (0, 0)) \<and>
       cell |\<notin>| moves_made (mark_safe (MinesweeperAI 1 1) (0, 0)) \<and>
       cell |\<notin>| mines (mark_safe (MinesweeperAI 1 1) (0, 0))))"
proof -
  let ?a = "mark_safe (MinesweeperAI 1 1) (0, 0)"
  have h1: "\<exists>c. c |\<in>| safes ?a |-| moves_made ?a"
    by (rule exI [of _ "(0, 0)"]) (simp add: mark_safe_def MinesweeperAI_def)
  have h2: "\<exists>cell. 0 \<le> fst cell \<and> fst cell < height ?a \<and> 0 \<le> snd cell \<and> snd cell < width ?a \<and>
              cell |\<notin>| moves_made ?a \<and> cell |\<notin>| mines ?a"
    by (rule exI [of _ "(0, 0)"]) (simp add: mark_safe_def MinesweeperAI_def)
  from move_queries_spec [of 0 ?a] h1 h2 show ?thesis by blast
qed

text \<open>
  C9. \<^verbatim>\<open>make_safe_move\<close> and \<^verbatim>\<open>make_random_move\<close> leave the engine as it was: the engine
  after the call equals the engine before it, in every field.
\<close>

theorem queries_frame:
  "(\<exists>res. make_safe_move r a = Inr (res, a)) \<and> (\<exists>res. make_random_move r a = Inr (res, a))"
  using make_safe_move_cases [of a r] make_random_move_cases [of a r] by blast

end
